theory Spec2Isabelle
  imports Complex_Main "HOL-Library.AList" "HOL-Library.Sublist"
begin

section \<open>JavaScript values\<close>

text \<open>
  The store and the comparator work on arbitrary JavaScript values. A value is a
  primitive or an object. An object carries its identity (a reference), its internal
  slots (what makes it an array, a \<open>Date\<close>, a \<open>RegExp\<close>, a \<open>Map\<close> or a
  \<open>Set\<close>) and its own enumerable string-keyed data properties, in insertion order.
  Non-enumerable, symbol-keyed, accessor and inherited properties are outside the model.

  A number is a double: \<open>NaN\<close>, the negative zero, the infinities, or a finite value
  (the positive zero is \<open>Fin 0\<close>). Only equality of numbers is ever used.

  References come from two disjoint supplies: \<open>Ext n\<close> names an object created by the
  caller, \<open>Own n\<close> the \<open>n\<close>-th object created by the store's own code.
\<close>

datatype number = NaN | NegZero | PosInf | NegInf | Fin rat

datatype ref = Ext nat | Own nat

datatype 'a slots =
    Plain
  | ArraySlots "'a list"
  | DateSlots number
  | RegExpSlots string string
  | MapSlots "('a \<times> 'a) list"
  | SetSlots "'a list"

datatype val =
    VUndefined
  | VNull
  | VBoolean bool
  | VNumber number
  | VString string
  | VBigInt int
  | VSymbol nat
  | VFunction ref
  | VObject ref "val slots" "(string \<times> val) list"

datatype typetag =
  TUndefined | TObject | TBoolean | TNumber | TString | TBigInt | TSymbol | TFunction

text \<open>The \<open>typeof\<close> operator; \<open>typeof null\<close> is \<open>"object"\<close>.\<close>

fun typeof :: "val \<Rightarrow> typetag" where
  "typeof VUndefined = TUndefined"
| "typeof VNull = TObject"
| "typeof (VBoolean _) = TBoolean"
| "typeof (VNumber _) = TNumber"
| "typeof (VString _) = TString"
| "typeof (VBigInt _) = TBigInt"
| "typeof (VSymbol _) = TSymbol"
| "typeof (VFunction _) = TFunction"
| "typeof (VObject _ _ _) = TObject"

text \<open>
  \<open>Object.is\<close> (SameValue): objects are compared by reference, primitives by value,
  \<open>NaN\<close> is itself and the two zeros differ.
\<close>

fun reference :: "val \<Rightarrow> ref option" where
  "reference (VObject r _ _) = Some r"
| "reference _ = None"

definition object_is :: "val \<Rightarrow> val \<Rightarrow> bool" where
  "object_is a b =
     (case reference a of
        Some r \<Rightarrow> (case reference b of Some r' \<Rightarrow> r = r' | None \<Rightarrow> False)
      | None \<Rightarrow> (case reference b of Some r' \<Rightarrow> False | None \<Rightarrow> a = b))"

fun is_zero :: "number \<Rightarrow> bool" where
  "is_zero NegZero = True"
| "is_zero (Fin q) = (q = 0)"
| "is_zero _ = False"

text \<open>\<open>===\<close> on numbers: \<open>NaN\<close> equals nothing and the two zeros are equal.\<close>

definition number_strict_equals :: "number \<Rightarrow> number \<Rightarrow> bool" where
  "number_strict_equals x y =
     (if x = NaN then False else if y = NaN then False
      else if is_zero x then is_zero y else x = y)"

text \<open>\<open>===\<close> and SameValueZero (the key comparison of \<open>Map\<close> and \<open>Set\<close>).\<close>

definition strict_equals :: "val \<Rightarrow> val \<Rightarrow> bool" where
  "strict_equals a b =
     (case a of
        VNumber x \<Rightarrow> (case b of VNumber y \<Rightarrow> number_strict_equals x y | _ \<Rightarrow> False)
      | _ \<Rightarrow> object_is a b)"

definition same_value_zero :: "val \<Rightarrow> val \<Rightarrow> bool" where
  "same_value_zero a b =
     (case a of
        VNumber x \<Rightarrow>
          (case b of VNumber y \<Rightarrow> (if is_zero x then is_zero y else x = y) | _ \<Rightarrow> False)
      | _ \<Rightarrow> object_is a b)"

text \<open>\<open>Array.isArray\<close> and the \<open>instanceof\<close> tests of the comparator.\<close>

fun isArray :: "val \<Rightarrow> bool" where
  "isArray (VObject _ (ArraySlots _) _) = True"
| "isArray _ = False"

fun instanceof_Date :: "val \<Rightarrow> bool" where
  "instanceof_Date (VObject _ (DateSlots _) _) = True"
| "instanceof_Date _ = False"

fun instanceof_RegExp :: "val \<Rightarrow> bool" where
  "instanceof_RegExp (VObject _ (RegExpSlots _ _) _) = True"
| "instanceof_RegExp _ = False"

fun instanceof_Map :: "val \<Rightarrow> bool" where
  "instanceof_Map (VObject _ (MapSlots _) _) = True"
| "instanceof_Map _ = False"

fun instanceof_Set :: "val \<Rightarrow> bool" where
  "instanceof_Set (VObject _ (SetSlots _) _) = True"
| "instanceof_Set _ = False"

text \<open>The accessors the comparator calls on each kind of object.\<close>

fun elements :: "val \<Rightarrow> val list" where
  "elements (VObject _ (ArraySlots xs) _) = xs"
| "elements _ = []"

fun getTime :: "val \<Rightarrow> number" where
  "getTime (VObject _ (DateSlots t) _) = t"
| "getTime _ = NaN"

fun regexp_toString :: "val \<Rightarrow> string" where
  "regexp_toString (VObject _ (RegExpSlots source flags) _) = ''/'' @ source @ ''/'' @ flags"
| "regexp_toString _ = []"

fun map_entries :: "val \<Rightarrow> (val \<times> val) list" where
  "map_entries (VObject _ (MapSlots kvs) _) = kvs"
| "map_entries _ = []"

fun set_values :: "val \<Rightarrow> val list" where
  "set_values (VObject _ (SetSlots xs) _) = xs"
| "set_values _ = []"

text \<open>\<open>Map.prototype.has\<close>, \<open>Map.prototype.get\<close> and \<open>Set.prototype.has\<close>.\<close>

fun map_has :: "(val \<times> val) list \<Rightarrow> val \<Rightarrow> bool" where
  "map_has [] k = False"
| "map_has ((k', v) # kvs) k = (if same_value_zero k' k then True else map_has kvs k)"

fun map_get :: "(val \<times> val) list \<Rightarrow> val \<Rightarrow> val" where
  "map_get [] k = VUndefined"
| "map_get ((k', v) # kvs) k = (if same_value_zero k' k then v else map_get kvs k)"

fun set_has :: "val list \<Rightarrow> val \<Rightarrow> bool" where
  "set_has [] x = False"
| "set_has (y # ys) x = (if same_value_zero y x then True else set_has ys x)"

text \<open>
  The own enumerable string-keyed properties of a value, as \<open>Object.keys\<close> and the
  object spread see them: an array's elements are properties named by their index, a
  string's characters likewise, and the other primitives have none.
\<close>

fun digit :: "nat \<Rightarrow> char" where
  "digit n = (''0123456789'' ! (n mod 10))"

fun decimal :: "nat \<Rightarrow> string" where
  "decimal n = (if n < 10 then [digit n] else decimal (n div 10) @ [digit n])"

fun own_properties :: "val \<Rightarrow> (string \<times> val) list" where
  "own_properties (VObject _ (ArraySlots xs) ps) = zip (map decimal [0..<length xs]) xs @ ps"
| "own_properties (VObject _ _ ps) = ps"
| "own_properties (VString s) = zip (map decimal [0..<length s]) (map (\<lambda>c. VString [c]) s)"
| "own_properties _ = []"

definition object_keys :: "val \<Rightarrow> string list" where
  "object_keys a = map fst (own_properties a)"

definition hasOwnProperty :: "val \<Rightarrow> string \<Rightarrow> bool" where
  "hasOwnProperty a k = (map_of (own_properties a) k \<noteq> None)"

definition get_property :: "val \<Rightarrow> string \<Rightarrow> val" where
  "get_property a k = (case map_of (own_properties a) k of Some v \<Rightarrow> v | None \<Rightarrow> VUndefined)"

section \<open>The shallow comparator (src/utils/shallow.ts)\<close>

text \<open>The three loops of the comparator, each leaving at the first failure.\<close>

fun array_loop :: "val list \<Rightarrow> val list \<Rightarrow> bool" where
  "array_loop [] ys = True"
| "array_loop (x # xs) [] = (if \<not> object_is x VUndefined then False else array_loop xs [])"
| "array_loop (x # xs) (y # ys) = (if \<not> object_is x y then False else array_loop xs ys)"

fun map_loop :: "(val \<times> val) list \<Rightarrow> (val \<times> val) list \<Rightarrow> bool" where
  "map_loop [] b = True"
| "map_loop ((key, v) # kvs) b =
     (if \<not> map_has b key \<or> \<not> object_is v (map_get b key) then False else map_loop kvs b)"

fun set_loop :: "val list \<Rightarrow> val list \<Rightarrow> bool" where
  "set_loop [] b = True"
| "set_loop (x # xs) b = (if \<not> set_has b x then False else set_loop xs b)"

fun keys_loop :: "string list \<Rightarrow> val \<Rightarrow> val \<Rightarrow> bool" where
  "keys_loop [] a b = True"
| "keys_loop (key # keys) a b =
     (if \<not> hasOwnProperty b key \<or> \<not> object_is (get_property a key) (get_property b key)
      then False else keys_loop keys a b)"

definition shallow :: "val \<Rightarrow> val \<Rightarrow> bool" where
  "shallow a b =
     (if object_is a b then True
      else if a = VNull \<or> b = VNull \<or> a = VUndefined \<or> b = VUndefined then strict_equals a b
      else if typeof a \<noteq> typeof b then False
      else if typeof a \<noteq> TObject \<or> typeof b \<noteq> TObject then False
      else if isArray a \<and> isArray b then
        (if length (elements a) \<noteq> length (elements b) then False
         else array_loop (elements a) (elements b))
      else if isArray a \<or> isArray b then False
      else if instanceof_Date a \<and> instanceof_Date b then
        number_strict_equals (getTime a) (getTime b)
      else if instanceof_RegExp a \<and> instanceof_RegExp b then
        regexp_toString a = regexp_toString b
      else if instanceof_Map a \<and> instanceof_Map b then
        (if length (map_entries a) \<noteq> length (map_entries b) then False
         else map_loop (map_entries a) (map_entries b))
      else if instanceof_Set a \<and> instanceof_Set b then
        (if length (set_values a) \<noteq> length (set_values b) then False
         else set_loop (set_values a) (set_values b))
      else if length (object_keys a) \<noteq> length (object_keys b) then False
      else keys_loop (object_keys a) a b)"

section \<open>The store (createStore)\<close>

text \<open>
  A selector or an equality function is caller code and may throw: it returns
  \<open>Inl e\<close> for the exception \<open>e\<close> it throws and \<open>Inr\<close> of its result otherwise.
  A callback is a closure \<open>() => void\<close>; it is modelled by its effect on the
  caller's environment \<open>'w\<close>, given what it can read of the store when it runs
  (\<open>get()\<close> and \<open>$version\<close>). Callbacks that throw or that call \<open>set\<close>,
  \<open>subscribe\<close> or an unsubscribe thunk themselves are outside the model.
\<close>

record ('e, 'w) entry =
  callback :: "val \<Rightarrow> nat \<Rightarrow> 'w \<Rightarrow> 'w"
  selector :: "val \<Rightarrow> 'e + val"
  equalityFn :: "val \<Rightarrow> val \<Rightarrow> 'e + bool"

text \<open>
  The closure state of \<open>createStore\<close>: the variable \<open>value\<close>, the set
  \<open>listeners\<close> (a JavaScript \<open>Set\<close> iterates in insertion order and holds each
  entry object once; an entry is listed with the identity of its object), the property
  \<open>$version\<close>, and the number of objects the store's code has created so far, which
  names the next one.
\<close>

record ('e, 'w) store =
  value_st :: val
  listeners :: "(nat \<times> ('e, 'w) entry) list"
  version :: nat
  allocated :: nat

text \<open>
  The argument of \<open>set\<close>: a partial state, or a function of the current state
  (\<open>typeof nextState === 'function'\<close>), which may throw as well.
\<close>

datatype 'e setarg = Partial val | Updater "val \<Rightarrow> 'e + val"

definition createStore :: "val \<Rightarrow> ('e, 'w) store" where
  "createStore initialValue =
     \<lparr>value_st = initialValue, listeners = [], version = 1, allocated = 0\<rparr>"

definition get :: "('e, 'w) store \<Rightarrow> val" where
  "get st = value_st st"

text \<open>
  \<open>$version++\<close> on a double that holds a non-negative integer: exact below
  \<open>2^53\<close>, where adding one no longer changes the value.
\<close>

definition increment :: "nat \<Rightarrow> nat" where
  "increment v = (if v < 2 ^ 53 then v + 1 else v)"

text \<open>
  The object spread \<open>{ ...value, ...update }\<close>: a new plain object that receives the
  own enumerable properties of \<open>value\<close>, then those of \<open>update\<close>; a property
  that exists already keeps its place and takes the new value. (JavaScript lists
  integer-like names first; nothing below depends on the order of the properties.)
\<close>

definition spread :: "(string \<times> val) list \<Rightarrow> val \<Rightarrow> (string \<times> val) list" where
  "spread target source = fold (\<lambda>(k, v). AList.update k v) (own_properties source) target"

definition newState :: "('e, 'w) store \<Rightarrow> val \<Rightarrow> val" where
  "newState st update =
     VObject (Own (allocated st)) Plain (spread (spread [] (value_st st)) update)"

definition resolve_update :: "'e setarg \<Rightarrow> val \<Rightarrow> 'e + val" where
  "resolve_update nextState v = (case nextState of Updater f \<Rightarrow> f v | Partial p \<Rightarrow> Inr p)"

text \<open>
  The test of line 53, \<open>!entry.equalityFn(entry.selector(newState),
  entry.selector(value))\<close>: the arguments are evaluated left to right, then the
  equality function is called.
\<close>

definition differs :: "('e, 'w) entry \<Rightarrow> val \<Rightarrow> val \<Rightarrow> 'e + bool" where
  "differs en new old =
     (case selector en new of
        Inl e \<Rightarrow> Inl e
      | Inr x \<Rightarrow>
          (case selector en old of
             Inl e \<Rightarrow> Inl e
           | Inr y \<Rightarrow>
               (case equalityFn en x y of
                  Inl e \<Rightarrow> Inl e
                | Inr same \<Rightarrow> Inr (\<not> same))))"

text \<open>\<open>listeners.forEach\<close>, filling the update queue; it stops at the first throw.\<close>

fun forEach_listeners ::
  "(nat \<times> ('e, 'w) entry) list \<Rightarrow> val \<Rightarrow> val \<Rightarrow> (val \<Rightarrow> nat \<Rightarrow> 'w \<Rightarrow> 'w) list
     \<Rightarrow> 'e + (val \<Rightarrow> nat \<Rightarrow> 'w \<Rightarrow> 'w) list" where
  "forEach_listeners [] new old updateQueue = Inr updateQueue"
| "forEach_listeners ((i, en) # rest) new old updateQueue =
     (case differs en new old of
        Inl e \<Rightarrow> Inl e
      | Inr d \<Rightarrow>
          forEach_listeners rest new old
            (if d then updateQueue @ [callback en] else updateQueue))"

text \<open>
  \<open>set\<close>. The result is the exception thrown, if any, with the store and the
  environment as the call leaves them. The expression
  \<open>store.$version++ && updateQueue.forEach(cb => cb())\<close> increments the counter and
  runs the queue when the value read before the increment is truthy (not zero).
\<close>

definition set_store ::
  "'e setarg \<Rightarrow> ('e, 'w) store \<Rightarrow> 'w \<Rightarrow> ('e + unit) \<times> ('e, 'w) store \<times> 'w" where
  "set_store nextState st w =
     (case resolve_update nextState (value_st st) of
        Inl e \<Rightarrow> (Inl e, st, w)
      | Inr update \<Rightarrow>
          (let new = newState st update;
               st1 = st\<lparr>allocated := Suc (allocated st)\<rparr>
           in case forEach_listeners (listeners st1) new (value_st st1) [] of
                Inl e \<Rightarrow> (Inl e, st1, w)
              | Inr updateQueue \<Rightarrow>
                  (let st2 = st1\<lparr>value_st := new\<rparr>
                   in if updateQueue \<noteq> [] then
                        (let before = version st2;
                             st3 = st2\<lparr>version := increment before\<rparr>
                         in if before \<noteq> 0
                            then (Inr (), st3,
                                  fold (\<lambda>cb. cb (value_st st3) (version st3)) updateQueue w)
                            else (Inr (), st3, w))
                      else (Inr (), st2, w))))"

text \<open>
  \<open>subscribe\<close> creates the entry object and adds it; the thunk it returns is
  represented by the identity of that entry, and calling the thunk is
  \<open>unsubscribe\<close> at that identity (\<open>listeners.delete(entry)\<close>, which tells whether
  the entry was there).
\<close>

definition make_entry ::
  "(val \<Rightarrow> nat \<Rightarrow> 'w \<Rightarrow> 'w) \<Rightarrow> (val \<Rightarrow> 'e + val) \<Rightarrow> (val \<Rightarrow> val \<Rightarrow> 'e + bool) option
     \<Rightarrow> ('e, 'w) entry" where
  "make_entry cb sel eq =
     \<lparr>callback = cb, selector = sel,
      equalityFn = (case eq of None \<Rightarrow> (\<lambda>a b. Inr (object_is a b)) | Some f \<Rightarrow> f)\<rparr>"

definition subscribe ::
  "(val \<Rightarrow> nat \<Rightarrow> 'w \<Rightarrow> 'w) \<Rightarrow> (val \<Rightarrow> 'e + val) \<Rightarrow> (val \<Rightarrow> val \<Rightarrow> 'e + bool) option
     \<Rightarrow> ('e, 'w) store \<Rightarrow> nat \<times> ('e, 'w) store" where
  "subscribe cb sel eq st =
     (allocated st,
      st\<lparr>listeners := listeners st @ [(allocated st, make_entry cb sel eq)],
         allocated := Suc (allocated st)\<rparr>)"

fun delete_entry :: "nat \<Rightarrow> (nat \<times> 'a) list \<Rightarrow> bool \<times> (nat \<times> 'a) list" where
  "delete_entry i [] = (False, [])"
| "delete_entry i ((j, en) # rest) =
     (if j = i then (True, rest)
      else (fst (delete_entry i rest), (j, en) # snd (delete_entry i rest)))"

definition unsubscribe :: "nat \<Rightarrow> ('e, 'w) store \<Rightarrow> bool \<times> ('e, 'w) store" where
  "unsubscribe i st =
     (fst (delete_entry i (listeners st)),
      st\<lparr>listeners := snd (delete_entry i (listeners st))\<rparr>)"

text \<open>
  The operations a caller can perform on a store, and a run of them: after a
  \<open>set\<close> that throws, the caller goes on with the store as the throw left it.
\<close>

datatype ('e, 'w) operation =
    Set "'e setarg"
  | Subscribe "val \<Rightarrow> nat \<Rightarrow> 'w \<Rightarrow> 'w" "val \<Rightarrow> 'e + val" "(val \<Rightarrow> val \<Rightarrow> 'e + bool) option"
  | Unsubscribe nat

fun perform :: "('e, 'w) operation \<Rightarrow> ('e, 'w) store \<times> 'w \<Rightarrow> ('e, 'w) store \<times> 'w" where
  "perform (Set nextState) (st, w) = snd (set_store nextState st w)"
| "perform (Subscribe cb sel eq) (st, w) = (snd (subscribe cb sel eq st), w)"
| "perform (Unsubscribe i) (st, w) = (snd (unsubscribe i st), w)"

definition run :: "('e, 'w) operation list \<Rightarrow> ('e, 'w) store \<times> 'w \<Rightarrow> ('e, 'w) store \<times> 'w" where
  "run ops s = fold perform ops s"

section \<open>The selector subscription adapter (useStoreSelector)\<close>

text \<open>
  The two refs of a call site, \<open>lastSnapshotRef\<close> and \<open>lastVersionRef\<close>, and the
  read function handed to \<open>useSyncExternalStore\<close>.
\<close>

record cache =
  lastSnapshot :: val
  lastVersion :: nat

definition applySelector :: "('e, 'w) store \<Rightarrow> (val \<Rightarrow> 'e + val) option \<Rightarrow> 'e + val" where
  "applySelector st sel = (case sel of Some f \<Rightarrow> f (get st) | None \<Rightarrow> Inr (get st))"


definition getSnapshot ::
  "('e, 'w) store \<Rightarrow> (val \<Rightarrow> 'e + val) option \<Rightarrow> cache \<Rightarrow> ('e + val) \<times> cache" where
  "getSnapshot st sel c =
     (case applySelector st sel of
        Inl e \<Rightarrow> (Inl e, c)
      | Inr nextSnapshot \<Rightarrow>
          (let currentVersion = version st
           in if lastVersion c = currentVersion then (Inr (lastSnapshot c), c)
              else (Inr nextSnapshot,
                    c\<lparr>lastSnapshot := nextSnapshot, lastVersion := currentVersion\<rparr>)))"

section \<open>Notions used to state the properties\<close>

text \<open>
  The entries an update notifies: those whose test of line 53 returns normally with
  \<open>true\<close>, in subscription order; and the call of one entry's callback once the
  update is committed.
\<close>

definition notified :: "('e, 'w) store \<Rightarrow> val \<Rightarrow> (nat \<times> ('e, 'w) entry) list" where
  "notified st new = filter (\<lambda>(i, en). differs en new (value_st st) = Inr True) (listeners st)"

definition invoke :: "('e, 'w) store \<Rightarrow> nat \<times> ('e, 'w) entry \<Rightarrow> 'w \<Rightarrow> 'w" where
  "invoke st = (\<lambda>(i, en). callback en (value_st st) (version st))"

text \<open>
  The states a store goes through keep the following: the counter is at least 1 and at
  most \<open>2^53\<close>, the entries have distinct identities, all created before, and the
  state object, when the store created it, was created before.
\<close>

definition wf_store :: "('e, 'w) store \<Rightarrow> bool" where
  "wf_store st \<longleftrightarrow>
     1 \<le> version st \<and> version st \<le> 2 ^ 53 \<and>
     distinct (map fst (listeners st)) \<and>
     list_all (\<lambda>(i, en). i < allocated st) (listeners st) \<and>
     (case reference (value_st st) of Some (Own n) \<Rightarrow> n < allocated st | _ \<Rightarrow> True)"

text \<open>An identity that was given out and is not registered.\<close>

definition retired :: "nat \<Rightarrow> ('e, 'w) store \<Rightarrow> bool" where
  "retired i st \<longleftrightarrow> i < allocated st \<and> i \<notin> fst ` set (listeners st)"



text \<open>A value whose property names are pairwise different, as those of an object are.\<close>

definition distinct_keys :: "val \<Rightarrow> bool" where
  "distinct_keys v = distinct (map fst (own_properties v))"

section \<open>Concrete values of the scenarios\<close>

text \<open>The state \<open>{count: 0, name: "x"}\<close> and the updates \<open>{count: 1}\<close> and \<open>{}\<close>.\<close>

definition count_name_state :: val where
  "count_name_state =
     VObject (Ext 0) Plain [(''count'', VNumber (Fin 0)), (''name'', VString ''x'')]"

definition count_update :: val where
  "count_update = VObject (Ext 1) Plain [(''count'', VNumber (Fin 1))]"

definition count_updater :: "val \<Rightarrow> string + val" where
  "count_updater s = Inr count_update"

definition empty_update :: val where
  "empty_update = VObject (Ext 2) Plain []"

definition name_update :: val where
  "name_update = VObject (Ext 4) Plain [(''name'', VString ''y'')]"

text \<open>
  Reading a property of \<open>null\<close> or \<open>undefined\<close> throws a \<open>TypeError\<close>. The
  selectors \<open>s => s.count\<close>, \<open>s => s.name\<close>, \<open>s => s.user.name\<close>,
  \<open>s => s.y\<close>, \<open>s => s\<close> and one that always throws; the equality function
  \<open>(a, b) => a.count === b.count\<close>; a callback that records its name and the
  version it reads when it runs.
\<close>

definition read_property :: "val \<Rightarrow> string \<Rightarrow> string + val" where
  "read_property s k =
     (if s = VNull \<or> s = VUndefined then Inl ''TypeError'' else Inr (get_property s k))"

definition select_count :: "val \<Rightarrow> string + val" where
  "select_count s = read_property s ''count''"

definition select_name :: "val \<Rightarrow> string + val" where
  "select_name s = read_property s ''name''"

definition select_user_name :: "val \<Rightarrow> string + val" where
  "select_user_name s =
     (case read_property s ''user'' of Inl e \<Rightarrow> Inl e | Inr u \<Rightarrow> read_property u ''name'')"

definition select_y :: "val \<Rightarrow> string + val" where
  "select_y s = read_property s ''y''"

definition select_whole :: "val \<Rightarrow> string + val" where
  "select_whole s = Inr s"

definition select_throws :: "val \<Rightarrow> string + val" where
  "select_throws s = Inl ''boom''"

definition same_count :: "val \<Rightarrow> val \<Rightarrow> string + bool" where
  "same_count a b =
     (case read_property a ''count'' of
        Inl e \<Rightarrow> Inl e
      | Inr x \<Rightarrow>
          (case read_property b ''count'' of
             Inl e \<Rightarrow> Inl e
           | Inr y \<Rightarrow> Inr (strict_equals x y)))"

definition record_call :: "string \<Rightarrow> val \<Rightarrow> nat \<Rightarrow> (string \<times> nat) list \<Rightarrow> (string \<times> nat) list" where
  "record_call name v n w = w @ [(name, n)]"

text \<open>
  Stores over \<open>{count: 0, name: "x"}\<close>: one with a subscriber to each field, one
  with a subscriber to the whole state, one with a subscriber whose selector throws,
  and one where the same arguments were subscribed twice.
\<close>

definition two_fields_store :: "(string, (string \<times> nat) list) store" where
  "two_fields_store =
     snd (subscribe (record_call ''name'') select_name None
       (snd (subscribe (record_call ''count'') select_count None
         (createStore count_name_state))))"

definition whole_state_store :: "(string, (string \<times> nat) list) store" where
  "whole_state_store =
     snd (subscribe (record_call ''whole'') select_whole None (createStore count_name_state))"

definition throwing_store :: "(string, (string \<times> nat) list) store" where
  "throwing_store =
     snd (subscribe (record_call ''never'') select_throws None
       (snd (subscribe (record_call ''count'') select_count None
         (createStore count_name_state))))"

text \<open>
  Scenario 5: subscribe to \<open>count\<close>, update it, unsubscribe, update it again with
  \<open>{count: 2}\<close>.
\<close>

definition count_two_update :: val where
  "count_two_update = VObject (Ext 3) Plain [(''count'', VNumber (Fin 2))]"

definition counter_subscribed :: "nat \<times> (string, (string \<times> nat) list) store" where
  "counter_subscribed =
     subscribe (record_call ''count'') select_count None (createStore count_name_state)"

definition after_first_update :: "(string, (string \<times> nat) list) store \<times> (string \<times> nat) list" where
  "after_first_update = run [Set (Partial count_update)] (snd counter_subscribed, [])"

definition after_unsubscribe :: "bool \<times> (string, (string \<times> nat) list) store" where
  "after_unsubscribe = unsubscribe (fst counter_subscribed) (fst after_first_update)"

definition after_second_update :: "(string, (string \<times> nat) list) store \<times> (string \<times> nat) list" where
  "after_second_update = run [Set (Partial count_two_update)] (snd after_unsubscribe, [])"

text \<open>The same arguments subscribed twice.\<close>

definition subscribed_twice :: "nat \<times> (string, (string \<times> nat) list) store" where
  "subscribed_twice =
     subscribe (record_call ''count'') select_count None (snd counter_subscribed)"

text \<open>
  A subscriber to the whole state with the equality function
  \<open>(a, b) => a.count === b.count\<close>, once and twice.
\<close>

definition custom_subscribed :: "nat \<times> (string, (string \<times> nat) list) store" where
  "custom_subscribed =
     subscribe (record_call ''whole'') select_whole (Some same_count)
       (createStore count_name_state)"

definition custom_subscribed_twice :: "nat \<times> (string, (string \<times> nat) list) store" where
  "custom_subscribed_twice =
     subscribe (record_call ''whole'') select_whole (Some same_count) (snd custom_subscribed)"

text \<open>The state \<open>{y: 0}\<close> with a subscriber to \<open>y\<close>, and the update \<open>{y: -0}\<close>.\<close>

definition zero_state :: val where
  "zero_state = VObject (Ext 20) Plain [(''y'', VNumber (Fin 0))]"

definition negative_zero_update :: val where
  "negative_zero_update = VObject (Ext 21) Plain [(''y'', VNumber NegZero)]"

definition zero_store :: "(string, (string \<times> nat) list) store" where
  "zero_store = snd (subscribe (record_call ''y'') select_y None (createStore zero_state))"

text \<open>
  The store after \<open>set({count: 1})\<close> with a subscriber to each field, a cache
  seeded before that update, and the cache a read leaves after it.
\<close>

definition updated_store :: "(string, (string \<times> nat) list) store" where
  "updated_store = fst (snd (set_store (Partial count_update) two_fields_store []))"

definition seeded_cache :: cache where
  "seeded_cache = \<lparr>lastSnapshot = VNumber (Fin 0), lastVersion = 1\<rparr>"

definition refreshed_cache :: cache where
  "refreshed_cache = \<lparr>lastSnapshot = VNumber (Fin 1), lastVersion = 2\<rparr>"

text \<open>
  \<open>new Map([[1, 2]])\<close>, \<open>new Date(0)\<close>, the array \<open>[1, 2]\<close> and the object
  \<open>{0: 1, 1: 2}\<close>.
\<close>

definition one_entry_map :: val where
  "one_entry_map = VObject (Ext 10) (MapSlots [(VNumber (Fin 1), VNumber (Fin 2))]) []"

definition epoch_date :: val where
  "epoch_date = VObject (Ext 11) (DateSlots (Fin 0)) []"

definition one_two_array :: val where
  "one_two_array = VObject (Ext 12) (ArraySlots [VNumber (Fin 1), VNumber (Fin 2)]) []"

definition one_two_object :: val where
  "one_two_object =
     VObject (Ext 13) Plain [(''0'', VNumber (Fin 1)), (''1'', VNumber (Fin 2))]"

section \<open>Auxiliary facts\<close>


lemma fold_update_map_of:
  "distinct (map fst ps) \<Longrightarrow>
   map_of (fold (\<lambda>(k, v). AList.update k v) ps t) = map_of t ++ map_of ps"
proof (induction ps arbitrary: t)
  case Nil
  then show ?case by simp
next
  case (Cons p ps)
  obtain k v where p: "p = (k, v)" by (cases p)
  from Cons.prems p have notin: "map_of ps k = None" and d: "distinct (map fst ps)"
    by (auto simp: map_of_eq_None_iff)
  have "map_of (fold (\<lambda>(k, v). AList.update k v) (p # ps) t)
        = map_of (AList.update k v t) ++ map_of ps"
    using Cons.IH [OF d] p by simp
  also have "\<dots> = map_of t ++ map_of (p # ps)"
    using notin p by (auto simp: update_conv' map_add_def fun_eq_iff split: option.splits)
  finally show ?case .
qed

lemma fold_update_distinct:
  "distinct (map fst t) \<Longrightarrow> distinct (map fst (fold (\<lambda>(k, v). AList.update k v) ps t))"
  by (induction ps arbitrary: t) (auto simp: distinct_update)

lemma spread_map_of:
  "distinct (map fst (own_properties src)) \<Longrightarrow>
   map_of (spread t src) = map_of t ++ map_of (own_properties src)"
  by (simp add: spread_def fold_update_map_of)

lemma spread_distinct:
  "distinct (map fst t) \<Longrightarrow> distinct (map fst (spread t src))"
  by (simp add: spread_def fold_update_distinct)

lemma own_properties_newState [simp]:
  "own_properties (newState st u) = spread (spread [] (value_st st)) u"
  by (simp add: newState_def)

lemma forEach_Inr:
  "forEach_listeners ls new old q = Inr q' \<Longrightarrow>
   q' = q @ map (\<lambda>(i, en). callback en) (filter (\<lambda>(i, en). differs en new old = Inr True) ls)"
proof (induction ls arbitrary: q)
  case Nil
  then show ?case by simp
next
  case (Cons p ls)
  obtain i en where p: "p = (i, en)" by (cases p)
  from Cons.prems p obtain d where d: "differs en new old = Inr d"
    and rest: "forEach_listeners ls new old (if d then q @ [callback en] else q) = Inr q'"
    by (auto split: sum.splits)
  from Cons.IH [OF rest] d p show ?case by (cases d) auto
qed

lemma forEach_Inl_iff:
  "forEach_listeners ls new old q = Inl e \<longleftrightarrow>
   (\<exists>pre i en post. ls = pre @ (i, en) # post \<and> differs en new old = Inl e \<and>
      list_all (\<lambda>(j, x). \<exists>d. differs x new old = Inr d) pre)"
proof (induction ls arbitrary: q)
  case Nil
  then show ?case by simp
next
  case (Cons p ls)
  obtain i en where p: "p = (i, en)" by (cases p)
  show ?case
  proof (cases "differs en new old")
    case (Inl e')
    show ?thesis
    proof
      assume "forEach_listeners (p # ls) new old q = Inl e"
      with Inl p have "e' = e" by simp
      with Inl p have "p # ls = [] @ (i, en) # ls \<and> differs en new old = Inl e \<and>
        list_all (\<lambda>(j, x). \<exists>d. differs x new old = Inr d) []" by simp
      then show "\<exists>pre i en post. p # ls = pre @ (i, en) # post \<and> differs en new old = Inl e \<and>
        list_all (\<lambda>(j, x). \<exists>d. differs x new old = Inr d) pre" by blast
    next
      assume "\<exists>pre i en post. p # ls = pre @ (i, en) # post \<and> differs en new old = Inl e \<and>
        list_all (\<lambda>(j, x). \<exists>d. differs x new old = Inr d) pre"
      then obtain pre i' en' post where eq: "p # ls = pre @ (i', en') # post"
        and th: "differs en' new old = Inl e"
        and ok: "list_all (\<lambda>(j, x). \<exists>d. differs x new old = Inr d) pre" by blast
      have "pre = []"
      proof (cases pre)
        case Nil then show ?thesis .
      next
        case (Cons a pre')
        with eq p have "a = (i, en)" by simp
        with ok Cons Inl show ?thesis by simp
      qed
      with eq p th Inl show "forEach_listeners (p # ls) new old q = Inl e" by simp
    qed
  next
    case (Inr d)
    have "forEach_listeners (p # ls) new old q = Inl e \<longleftrightarrow>
          forEach_listeners ls new old (if d then q @ [callback en] else q) = Inl e"
      using p Inr by simp
    also have "\<dots> \<longleftrightarrow> (\<exists>pre i en post. ls = pre @ (i, en) # post \<and> differs en new old = Inl e \<and>
      list_all (\<lambda>(j, x). \<exists>d. differs x new old = Inr d) pre)"
      by (rule Cons.IH)
    also have "\<dots> \<longleftrightarrow> (\<exists>pre i en post. p # ls = pre @ (i, en) # post \<and> differs en new old = Inl e \<and>
      list_all (\<lambda>(j, x). \<exists>d. differs x new old = Inr d) pre)"
    proof
      assume "\<exists>pre i en post. ls = pre @ (i, en) # post \<and> differs en new old = Inl e \<and>
      list_all (\<lambda>(j, x). \<exists>d. differs x new old = Inr d) pre"
      then obtain pre i' en' post where "ls = pre @ (i', en') # post"
        "differs en' new old = Inl e" "list_all (\<lambda>(j, x). \<exists>d. differs x new old = Inr d) pre"
        by blast
      with p Inr have "p # ls = (p # pre) @ (i', en') # post \<and> differs en' new old = Inl e \<and>
         list_all (\<lambda>(j, x). \<exists>d. differs x new old = Inr d) (p # pre)" by simp
      then show "\<exists>pre i en post. p # ls = pre @ (i, en) # post \<and> differs en new old = Inl e \<and>
      list_all (\<lambda>(j, x). \<exists>d. differs x new old = Inr d) pre" by blast
    next
      assume "\<exists>pre i en post. p # ls = pre @ (i, en) # post \<and> differs en new old = Inl e \<and>
      list_all (\<lambda>(j, x). \<exists>d. differs x new old = Inr d) pre"
      then obtain pre i' en' post where eq: "p # ls = pre @ (i', en') # post"
        and th: "differs en' new old = Inl e"
        and ok: "list_all (\<lambda>(j, x). \<exists>d. differs x new old = Inr d) pre" by blast
      show "\<exists>pre i en post. ls = pre @ (i, en) # post \<and> differs en new old = Inl e \<and>
      list_all (\<lambda>(j, x). \<exists>d. differs x new old = Inr d) pre"
      proof (cases pre)
        case Nil
        with eq p th Inr show ?thesis by simp
      next
        case (Cons a pre')
        with eq ok have "ls = pre' @ (i', en') # post"
          "list_all (\<lambda>(j, x). \<exists>d. differs x new old = Inr d) pre'" by simp_all
        with th show ?thesis by blast
      qed
    qed
    finally show ?thesis .
  qed
qed

lemma fold_callbacks:
  "fold (\<lambda>cb. cb v n) (map (\<lambda>(i, en). callback en) ns) w = fold (\<lambda>(i, en). callback en v n) ns w"
  by (induction ns arbitrary: w) auto

lemma set_store_Inr:
  assumes "set_store arg st w = (Inr (), st', w')"
  shows "\<exists>u. resolve_update arg (value_st st) = Inr u \<and>
           forEach_listeners (listeners st) (newState st u) (value_st st) [] =
             Inr (map (\<lambda>(i, en). callback en) (notified st (newState st u))) \<and>
           st' = st\<lparr>allocated := Suc (allocated st), value_st := newState st u,
                    version := (if notified st (newState st u) = [] then version st
                                else increment (version st))\<rparr> \<and>
           w' = (if version st = 0 then w else fold (invoke st') (notified st (newState st u)) w)"
proof -
  from assms obtain u where u: "resolve_update arg (value_st st) = Inr u"
    by (auto simp: set_store_def split: sum.splits)
  from assms u obtain q where q: "forEach_listeners (listeners st) (newState st u) (value_st st) [] = Inr q"
    by (auto simp: set_store_def Let_def split: sum.splits)
  from forEach_Inr [OF q] have qeq: "q = map (\<lambda>(i, en). callback en) (notified st (newState st u))"
    by (simp add: notified_def)
  show ?thesis
    using assms u q qeq
    by (auto simp: set_store_def Let_def invoke_def fold_callbacks split: if_splits)
qed

lemma set_store_Inl:
  assumes "set_store arg st w = (Inl e, st', w')"
  shows "w' = w \<and> (st' = st \<or> st' = st\<lparr>allocated := Suc (allocated st)\<rparr>) \<and>
         (resolve_update arg (value_st st) = Inl e \<or>
          (\<exists>u. resolve_update arg (value_st st) = Inr u \<and>
               forEach_listeners (listeners st) (newState st u) (value_st st) [] = Inl e))"
  using assms by (auto simp: set_store_def Let_def split: sum.splits if_splits)

lemma set_store_world:
  assumes "set_store arg st w = (r, st', w')"
  shows "w' = fold (invoke st') (if r = Inr () \<and> version st \<noteq> 0 then notified st (get st') else []) w"
proof (cases r)
  case (Inl e)
  with assms set_store_Inl [of arg st w e st' w'] show ?thesis by simp
next
  case (Inr u)
  with assms have a: "set_store arg st w = (Inr (), st', w')" by simp
  from set_store_Inr [OF a] obtain P where
    st': "st' = st\<lparr>allocated := Suc (allocated st), value_st := newState st P,
                    version := (if notified st (newState st P) = [] then version st
                                else increment (version st))\<rparr>"
    and w': "w' = (if version st = 0 then w else fold (invoke st') (notified st (newState st P)) w)"
    by blast
  have "get st' = newState st P" by (simp add: st' get_def)
  with w' Inr show ?thesis by simp
qed

lemma set_store_listeners:
  "set_store arg st w = (r, st', w') \<Longrightarrow> listeners st' = listeners st"
  by (auto simp: set_store_def Let_def split: sum.splits if_splits)

lemma set_store_allocated:
  "set_store arg st w = (r, st', w') \<Longrightarrow> allocated st \<le> allocated st'"
  by (auto simp: set_store_def Let_def split: sum.splits if_splits)

lemma increment_range: "1 \<le> v \<Longrightarrow> v \<le> 2 ^ 53 \<Longrightarrow> 1 \<le> increment v \<and> increment v \<le> 2 ^ 53"
  by (simp add: increment_def)

lemma set_store_wf:
  assumes "set_store arg st w = (r, st', w')" and "wf_store st"
  shows "wf_store st'"
proof -
  have mono: "list_all (\<lambda>(i, en). i < Suc (allocated st)) (listeners st)"
    using assms(2) by (auto simp: wf_store_def list_all_iff)
  have r1: "1 \<le> increment (version st)" and r2: "increment (version st) \<le> 2 ^ 53"
    using assms(2) increment_range [of "version st"] by (simp_all add: wf_store_def)
  have st1: "wf_store (st\<lparr>allocated := Suc (allocated st)\<rparr>)"
    using assms(2) mono by (auto simp: wf_store_def split: option.splits ref.splits)
  show ?thesis
  proof (cases r)
    case (Inl e)
    with assms set_store_Inl [of arg st w e st' w'] st1 show ?thesis by auto
  next
    case (Inr u)
    with assms have a: "set_store arg st w = (Inr (), st', w')" by simp
    from set_store_Inr [OF a] obtain P where
      st': "st' = st\<lparr>allocated := Suc (allocated st), value_st := newState st P,
                    version := (if notified st (newState st P) = [] then version st
                                else increment (version st))\<rparr>" by blast
    show ?thesis
      using assms(2) mono r1 r2 unfolding st'
      by (simp add: wf_store_def newState_def)
  qed
qed

lemma notified_subseq: "subseq (notified st new) (listeners st)"
  by (simp add: notified_def)

lemma notified_distinct:
  "distinct (map fst (listeners st)) \<Longrightarrow> distinct (map fst (notified st new))"
  by (simp add: notified_def distinct_map_filter)

lemma differs_True_iff:
  "differs en new old = Inr True \<longleftrightarrow>
   (\<exists>x y. selector en new = Inr x \<and> selector en old = Inr y \<and> equalityFn en x y = Inr False)"
  by (auto simp: differs_def split: sum.splits)

lemma differs_Inl_iff:
  "differs en new old = Inl e \<longleftrightarrow>
   (selector en new = Inl e \<or>
    (\<exists>x. selector en new = Inr x \<and>
         (selector en old = Inl e \<or>
          (\<exists>y. selector en old = Inr y \<and> equalityFn en x y = Inl e))))"
  by (auto simp: differs_def split: sum.splits)

lemma newState_not_identical:
  assumes "wf_store st"
  shows "\<not> object_is (newState st u) (value_st st)"
proof -
  have "reference (value_st st) \<noteq> Some (Own (allocated st))"
    using assms by (auto simp: wf_store_def split: option.splits ref.splits)
  then show ?thesis
    by (auto simp: object_is_def newState_def split: option.splits)
qed

lemmas store_eval =
  set_store_def createStore_def resolve_update_def newState_def spread_def get_def
  subscribe_def make_entry_def differs_def notified_def invoke_def increment_def
  get_property_def object_is_def record_call_def read_property_def same_count_def
  strict_equals_def number_strict_equals_def name_update_def select_user_name_def
  select_y_def zero_state_def negative_zero_update_def zero_store_def
  count_update_def count_name_state_def count_updater_def empty_update_def
  select_count_def select_name_def select_whole_def select_throws_def
  two_fields_store_def whole_state_store_def throwing_store_def

lemma delete_entry_absent:
  "i \<notin> fst ` set ls \<Longrightarrow> delete_entry i ls = (False, ls)"
  by (induction ls) auto

lemma delete_entry_first:
  "i \<notin> fst ` set ls \<Longrightarrow> delete_entry i (ls @ (i, en) # rest) = (True, ls @ rest)"
  by (induction ls) auto

lemma delete_entry_filter:
  "distinct (map fst ls) \<Longrightarrow> snd (delete_entry i ls) = filter (\<lambda>(j, en). j \<noteq> i) ls"
proof (induction ls)
  case Nil
  then show ?case by simp
next
  case (Cons p ls)
  obtain j en where p: "p = (j, en)" by (cases p)
  show ?case
  proof (cases "j = i")
    case True
    with Cons.prems p have "i \<notin> fst ` set ls" by auto
    then have "filter (\<lambda>(j, en). j \<noteq> i) ls = ls"
      by (force simp: filter_id_conv)
    with True p show ?thesis by simp
  next
    case False
    with Cons p show ?thesis by simp
  qed
qed

lemma delete_entry_present:
  "fst (delete_entry i ls) \<longleftrightarrow> i \<in> fst ` set ls"
  by (induction ls) auto

lemma subscribe_wf:
  assumes "wf_store st" and "subscribe cb sel eq st = (i, st1)"
  shows "wf_store st1"
proof -
  have "list_all (\<lambda>(i, en). i < Suc (allocated st)) (listeners st)"
    using assms(1) by (auto simp: wf_store_def list_all_iff)
  moreover have "allocated st \<notin> fst ` set (listeners st)"
    using assms(1) by (auto simp: wf_store_def list_all_iff)
  ultimately show ?thesis
    using assms by (auto simp: wf_store_def subscribe_def split: option.splits ref.splits)
qed

lemma unsubscribe_wf:
  assumes "wf_store st" and "unsubscribe i st = (b, st1)"
  shows "wf_store st1"
proof -
  from assms(1) have d: "distinct (map fst (listeners st))" by (simp add: wf_store_def)
  have l: "listeners st1 = filter (\<lambda>(j, en). j \<noteq> i) (listeners st)"
    using assms(2) delete_entry_filter [OF d] by (auto simp: unsubscribe_def)
  have rest: "value_st st1 = value_st st" "version st1 = version st" "allocated st1 = allocated st"
    using assms(2) by (auto simp: unsubscribe_def)
  show ?thesis
    using assms(1) unfolding wf_store_def l rest
    by (auto simp: distinct_map_filter list_all_iff)
qed

lemma perform_wf:
  assumes "wf_store (fst s)"
  shows "wf_store (fst (perform op s))"
proof -
  obtain st w where s: "s = (st, w)" by (cases s)
  show ?thesis
  proof (cases op)
    case (Set x)
    obtain r st' w' where "set_store x st w = (r, st', w')" by (cases "set_store x st w")
    with set_store_wf [of x st w r st' w'] assms s Set show ?thesis by simp
  next
    case (Subscribe cb sel eq)
    with subscribe_wf [of st cb sel eq] assms s show ?thesis
      by (cases "subscribe cb sel eq st") auto
  next
    case (Unsubscribe i)
    with unsubscribe_wf [of st i] assms s show ?thesis
      by (cases "unsubscribe i st") auto
  qed
qed

lemma run_wf: "wf_store (fst s) \<Longrightarrow> wf_store (fst (run ops s))"
  unfolding run_def by (induction ops arbitrary: s) (auto simp: perform_wf)

lemma createStore_wf:
  "reference initialValue \<notin> range (Some \<circ> Own) \<Longrightarrow> wf_store (createStore initialValue)"
  by (auto simp: wf_store_def createStore_def split: option.splits ref.splits)

lemma reachable_wf:
  "reference initialValue \<notin> range (Some \<circ> Own) \<Longrightarrow>
   wf_store (fst (run ops (createStore initialValue, w)))"
  by (simp add: run_wf createStore_wf)

lemma newState_distinct_keys: "distinct_keys (newState st u)"
  by (simp add: distinct_keys_def spread_distinct)

lemma perform_retired:
  assumes "retired i (fst s)" and "wf_store (fst s)"
  shows "retired i (fst (perform op s))"
proof -
  obtain st w where s: "s = (st, w)" by (cases s)
  show ?thesis
  proof (cases op)
    case (Set x)
    obtain r st' w' where e: "set_store x st w = (r, st', w')" by (cases "set_store x st w")
    from set_store_listeners [OF e] set_store_allocated [OF e] assms s Set e
    show ?thesis by (auto simp: retired_def)
  next
    case (Subscribe cb sel eq)
    with assms s show ?thesis by (auto simp: retired_def subscribe_def)
  next
    case (Unsubscribe j)
    from assms s have d: "distinct (map fst (listeners st))" by (simp add: wf_store_def)
    from Unsubscribe assms s delete_entry_filter [OF d, of j] show ?thesis
      by (auto simp: retired_def unsubscribe_def)
  qed
qed

lemma run_retired:
  "retired i (fst s) \<Longrightarrow> wf_store (fst s) \<Longrightarrow> retired i (fst (run ops s))"
  unfolding run_def
proof (induction ops arbitrary: s)
  case Nil
  then show ?case by simp
next
  case (Cons op ops)
  from Cons.prems have "retired i (fst (perform op s))" "wf_store (fst (perform op s))"
    by (simp_all add: perform_retired perform_wf)
  from Cons.IH [OF this] show ?case by simp
qed

lemma perform_registered:
  assumes "(i, en) \<in> set (listeners (fst s))" and "op \<noteq> Unsubscribe i" and "wf_store (fst s)"
  shows "(i, en) \<in> set (listeners (fst (perform op s)))"
proof -
  obtain st w where s: "s = (st, w)" by (cases s)
  show ?thesis
  proof (cases op)
    case (Set x)
    obtain r st' w' where e: "set_store x st w = (r, st', w')" by (cases "set_store x st w")
    from set_store_listeners [OF e] assms s Set e show ?thesis by simp
  next
    case (Subscribe cb sel eq)
    with assms s show ?thesis by (auto simp: subscribe_def)
  next
    case (Unsubscribe j)
    from assms s have d: "distinct (map fst (listeners st))" by (simp add: wf_store_def)
    from Unsubscribe assms s delete_entry_filter [OF d, of j] show ?thesis
      by (auto simp: unsubscribe_def)
  qed
qed

lemma run_registered:
  "(i, en) \<in> set (listeners (fst s)) \<Longrightarrow> Unsubscribe i \<notin> set ops \<Longrightarrow> wf_store (fst s) \<Longrightarrow>
   (i, en) \<in> set (listeners (fst (run ops s)))"
  unfolding run_def
proof (induction ops arbitrary: s)
  case Nil
  then show ?case by simp
next
  case (Cons op ops)
  from Cons.prems have "(i, en) \<in> set (listeners (fst (perform op s)))"
    "Unsubscribe i \<notin> set ops" "wf_store (fst (perform op s))"
    by (auto simp: perform_registered perform_wf)
  from Cons.IH [OF this] show ?case by simp
qed

lemmas scenario_eval =
  counter_subscribed_def after_first_update_def after_unsubscribe_def after_second_update_def
  subscribed_twice_def count_two_update_def run_def unsubscribe_def
  custom_subscribed_def custom_subscribed_twice_def

lemma perform_allocated:
  assumes "i < allocated (fst s)"
  shows "i < allocated (fst (perform op s))"
proof -
  obtain st w where s: "s = (st, w)" by (cases s)
  show ?thesis
  proof (cases op)
    case (Set x)
    obtain r st' w' where e: "set_store x st w = (r, st', w')" by (cases "set_store x st w")
    from set_store_allocated [OF e] assms s Set e show ?thesis by simp
  next
    case (Subscribe cb sel eq)
    with assms s show ?thesis by (simp add: subscribe_def)
  next
    case (Unsubscribe j)
    with assms s show ?thesis by (simp add: unsubscribe_def)
  qed
qed

lemma run_allocated:
  "i < allocated (fst s) \<Longrightarrow> i < allocated (fst (run ops s))"
  unfolding run_def by (induction ops arbitrary: s) (auto simp: perform_allocated)




lemma shallow_array_other:
  assumes "isArray a \<noteq> isArray b" and "\<not> object_is a b"
  shows "\<not> shallow a b"
proof -
  have "strict_equals a b = object_is a b" if "isArray a \<or> isArray b"
    using that assms(1)
    by (cases a; cases b) (auto simp: strict_equals_def object_is_def elim: isArray.elims)
  with assms show ?thesis by (auto simp: shallow_def)
qed

lemma subscribe_twice_entries:
  assumes "wf_store st"
    and "subscribe cb sel eq st = (i, st1)"
    and "subscribe cb sel eq st1 = (j, st2)"
  shows "i \<noteq> j \<and>
         listeners st2 = listeners st @ [(i, make_entry cb sel eq), (j, make_entry cb sel eq)] \<and>
         (set_store nextState st2 w = (Inr (), st3, w3) \<and>
          differs (make_entry cb sel eq) (get st3) (get st2) = Inr True \<longrightarrow>
            w3 = cb (get st3) (version st3) (cb (get st3) (version st3)
                   (fold (invoke st3) (notified st (get st3)) w))) \<and>
         listeners (snd (unsubscribe i st2)) = listeners st @ [(j, make_entry cb sel eq)] \<and>
         listeners (snd (unsubscribe j st2)) = listeners st @ [(i, make_entry cb sel eq)] \<and>
         (set_store nextState (snd (unsubscribe i st2)) w = (Inr (), st4, w4) \<and>
          differs (make_entry cb sel eq) (get st4) (get st2) = Inr True \<longrightarrow>
            w4 = cb (get st4) (version st4) (fold (invoke st4) (notified st (get st4)) w)) \<and>
         (set_store nextState (snd (unsubscribe j st2)) w = (Inr (), st5, w5) \<and>
          differs (make_entry cb sel eq) (get st5) (get st2) = Inr True \<longrightarrow>
            w5 = cb (get st5) (version st5) (fold (invoke st5) (notified st (get st5)) w))"
proof -
  let ?en = "make_entry cb sel eq"
  have i: "i = allocated st" and j: "j = Suc (allocated st)"
    using assms(2,3) by (auto simp: subscribe_def)
  have l2: "listeners st2 = listeners st @ [(i, ?en), (j, ?en)]"
    using assms(2,3) by (auto simp: subscribe_def)
  have v2: "value_st st2 = value_st st" and ver2: "version st2 = version st"
    using assms(2,3) by (auto simp: subscribe_def)
  have fresh: "i \<notin> fst ` set (listeners st)" "j \<notin> fst ` set (listeners st)"
    using assms(1) i j by (auto simp: wf_store_def list_all_iff)
  have ij: "i \<noteq> j" using i j by simp
  have nz: "version st \<noteq> 0" using assms(1) by (simp add: wf_store_def)
  have del_i: "delete_entry i (listeners st2) = (True, listeners st @ [(j, ?en)])"
    using delete_entry_first [OF fresh(1), of ?en "[(j, ?en)]"] l2 by simp
  have "j \<notin> fst ` set (listeners st @ [(i, ?en)])" using fresh(2) ij by auto
  from delete_entry_first [OF this, of ?en "[]"]
  have del_j: "delete_entry j (listeners st2) = (True, listeners st @ [(i, ?en)])"
    using l2 by simp
  have ui: "listeners (snd (unsubscribe i st2)) = listeners st @ [(j, ?en)]"
    using del_i by (simp add: unsubscribe_def)
  have uj: "listeners (snd (unsubscribe j st2)) = listeners st @ [(i, ?en)]"
    using del_j by (simp add: unsubscribe_def)
  have both: "set_store nextState st2 w = (Inr (), st3, w3) \<and>
          differs ?en (get st3) (get st2) = Inr True \<longrightarrow>
            w3 = cb (get st3) (version st3) (cb (get st3) (version st3)
                   (fold (invoke st3) (notified st (get st3)) w))"
  proof
    assume a: "set_store nextState st2 w = (Inr (), st3, w3) \<and>
          differs ?en (get st3) (get st2) = Inr True"
    then have d: "differs ?en (get st3) (value_st st) = Inr True" by (simp add: get_def v2)
    have n: "notified st2 (get st3) = notified st (get st3) @ [(i, ?en), (j, ?en)]"
      using d by (simp add: notified_def l2 v2)
    from a set_store_world [of nextState st2 w "Inr ()" st3 w3] nz
    have "w3 = fold (invoke st3) (notified st2 (get st3)) w" by (simp add: ver2)
    then have "w3 = fold (invoke st3) (notified st (get st3) @ [(i, ?en), (j, ?en)]) w"
      by (simp only: n)
    then show "w3 = cb (get st3) (version st3) (cb (get st3) (version st3)
                   (fold (invoke st3) (notified st (get st3)) w))"
      by (simp add: invoke_def make_entry_def get_def)
  qed
  have one: "\<And>k k' st' w'. listeners (snd (unsubscribe k st2)) = listeners st @ [(k', ?en)] \<Longrightarrow>
      set_store nextState (snd (unsubscribe k st2)) w = (Inr (), st', w') \<and>
          differs ?en (get st') (get st2) = Inr True \<Longrightarrow>
            w' = cb (get st') (version st') (fold (invoke st') (notified st (get st')) w)"
  proof -
    fix k k' st' w'
    assume l: "listeners (snd (unsubscribe k st2)) = listeners st @ [(k', ?en)]"
      and a: "set_store nextState (snd (unsubscribe k st2)) w = (Inr (), st', w') \<and>
          differs ?en (get st') (get st2) = Inr True"
    have vu: "value_st (snd (unsubscribe k st2)) = value_st st"
      "version (snd (unsubscribe k st2)) = version st"
      by (simp_all add: unsubscribe_def v2 ver2)
    from a have d: "differs ?en (get st') (value_st st) = Inr True" by (simp add: get_def v2)
    have n: "notified (snd (unsubscribe k st2)) (get st') = notified st (get st') @ [(k', ?en)]"
      using d by (simp add: notified_def l vu)
    from a set_store_world [of nextState "snd (unsubscribe k st2)" w "Inr ()" st' w'] nz
    have "w' = fold (invoke st') (notified (snd (unsubscribe k st2)) (get st')) w"
      by (simp add: vu)
    then have "w' = fold (invoke st') (notified st (get st') @ [(k', ?en)]) w"
      by (simp only: n)
    then show "w' = cb (get st') (version st') (fold (invoke st') (notified st (get st')) w)"
      by (simp add: invoke_def make_entry_def get_def)
  qed
  from ij l2 both ui uj one [OF ui] one [OF uj] show ?thesis by blast
qed

section \<open>The store: updates\<close>

text \<open>
  Claim C1. For every store state \<open>S\<close> and every argument of \<open>set\<close>, a partial
  state \<open>P\<close> or a function that returns \<open>P\<close> on \<open>S\<close>, once \<open>set\<close> has
  returned \<open>get()\<close> is the one-level merge of \<open>S\<close> with \<open>P\<close>: a field named in
  \<open>P\<close> has the value \<open>P\<close> gives it, whole, and every other field of \<open>S\<close> is
  kept as it was (\<open>S\<close> and \<open>P\<close> being objects, whose property names are pairwise
  different). In particular the store created with \<open>{count: 0, name: "x"}\<close> holds
  \<open>{count: 1, name: "x"}\<close> after \<open>set({count: 1})\<close>.
\<close>

theorem set_shallow_merge:
  "((nextState = Partial P \<or> (nextState = Updater f \<and> f (get st) = Inr P)) \<and>
    distinct_keys (get st) \<and> distinct_keys P \<and>
    set_store nextState st w = (Inr (), st', w') \<longrightarrow>
      (\<forall>k. map_of (own_properties (get st')) k =
           (case map_of (own_properties P) k of
              Some v \<Rightarrow> Some v
            | None \<Rightarrow> map_of (own_properties (get st)) k))) \<and>
   get (fst (snd (set_store (Partial count_update) (createStore count_name_state) w0))) =
     VObject (Own 0) Plain [(''count'', VNumber (Fin 1)), (''name'', VString ''x'')]"
proof (intro conjI impI allI)
  fix k
  assume a: "(nextState = Partial P \<or> (nextState = Updater f \<and> f (get st) = Inr P)) \<and>
    distinct_keys (get st) \<and> distinct_keys P \<and>
    set_store nextState st w = (Inr (), st', w')"
  then have res: "resolve_update nextState (value_st st) = Inr P"
    by (auto simp: resolve_update_def get_def)
  from a have dS: "distinct (map fst (own_properties (value_st st)))"
    and dP: "distinct (map fst (own_properties P))"
    by (simp_all add: distinct_keys_def get_def)
  from a have "set_store nextState st w = (Inr (), st', w')" by simp
  from set_store_Inr [OF this] res have v: "value_st st' = newState st P" by auto
  have "map_of (own_properties (get st')) =
        map_of (own_properties (value_st st)) ++ map_of (own_properties P)"
    by (simp add: get_def v spread_map_of dS dP)
  then show "map_of (own_properties (get st')) k =
           (case map_of (own_properties P) k of
              Some v \<Rightarrow> Some v
            | None \<Rightarrow> map_of (own_properties (get st)) k)"
    by (simp add: map_add_def get_def split: option.splits)
next
  show "get (fst (snd (set_store (Partial count_update) (createStore count_name_state) w0))) =
     VObject (Own 0) Plain [(''count'', VNumber (Fin 1)), (''name'', VString ''x'')]"
    by (simp add: set_store_def createStore_def resolve_update_def newState_def spread_def
        get_def count_update_def count_name_state_def)
qed

theorem set_shallow_merge_witness:
  "count_updater (get (createStore count_name_state)) = Inr count_update \<and>
   distinct_keys (get (createStore count_name_state :: (string, unit) store)) \<and>
   distinct_keys count_update \<and>
   set_store (Updater count_updater) (createStore count_name_state) () =
     (Inr (),
      \<lparr>value_st = VObject (Own 0) Plain [(''count'', VNumber (Fin 1)), (''name'', VString ''x'')],
       listeners = [], version = 1, allocated = 1\<rparr>, ()) \<and>
   map_of (own_properties (get
      \<lparr>value_st = VObject (Own 0) Plain [(''count'', VNumber (Fin 1)), (''name'', VString ''x'')],
       listeners = [], version = 1, allocated = 1 :: nat\<rparr>)) ''name'' = Some (VString ''x'') \<and>
   map_of (own_properties (get
      \<lparr>value_st = VObject (Own 0) Plain [(''count'', VNumber (Fin 1)), (''name'', VString ''x'')],
       listeners = [], version = 1, allocated = 1 :: nat\<rparr>)) ''count'' = Some (VNumber (Fin 1))"
  using set_shallow_merge [of "Updater count_updater" count_update count_updater
      "createStore count_name_state" "()"
      "\<lparr>value_st = VObject (Own 0) Plain [(''count'', VNumber (Fin 1)), (''name'', VString ''x'')],
       listeners = [], version = 1, allocated = 1\<rparr>" "()" "()"]
  by (simp add: set_store_def createStore_def resolve_update_def newState_def spread_def
        get_def count_update_def count_name_state_def count_updater_def distinct_keys_def)

text \<open>
  Claim C2. A call of \<open>set\<close> that returns has committed the new state, a new object
  that is not the one held before, whether or not any entry was notified. When the
  queue is not empty the version counter goes up by exactly one and then the queued
  callbacks run, in subscription order, before \<open>set\<close> returns: each callback reads
  the new state and the incremented counter. When the queue is empty the counter and
  the environment are untouched. The store is one that \<open>createStore\<close> and the
  operations produce (\<open>wf_store\<close>), its counter below \<open>2^53\<close>, where a double
  still counts exactly.
\<close>

theorem set_commits_and_notifies:
  assumes "set_store nextState st w = (Inr (), st', w')"
    and "wf_store st" and "version st < 2 ^ 53"
  shows "(\<exists>u. resolve_update nextState (get st) = Inr u \<and> get st' = newState st u) \<and>
         \<not> object_is (get st') (get st) \<and>
         (notified st (get st') \<noteq> [] \<longrightarrow>
            version st' = version st + 1 \<and>
            w' = fold (invoke st') (notified st (get st')) w) \<and>
         (notified st (get st') = [] \<longrightarrow> version st' = version st \<and> w' = w)"
proof -
  from set_store_Inr [OF assms(1)] obtain P where
    res: "resolve_update nextState (value_st st) = Inr P"
    and st': "st' = st\<lparr>allocated := Suc (allocated st), value_st := newState st P,
                    version := (if notified st (newState st P) = [] then version st
                                else increment (version st))\<rparr>"
    and w': "w' = (if version st = 0 then w else fold (invoke st') (notified st (newState st P)) w)"
    by blast
  have g: "get st' = newState st P" by (simp add: st' get_def)
  have ver: "version st' = (if notified st (newState st P) = [] then version st
                            else increment (version st))" by (simp add: st')
  have nz: "version st \<noteq> 0" using assms(2) by (simp add: wf_store_def)
  have inc: "increment (version st) = version st + 1"
    using assms(3) by (simp add: increment_def)
  have "\<exists>u. resolve_update nextState (get st) = Inr u \<and> get st' = newState st u"
    using res g by (auto simp: get_def)
  moreover have "\<not> object_is (get st') (get st)"
    using newState_not_identical [OF assms(2)] g by (simp add: get_def)
  moreover have "notified st (get st') \<noteq> [] \<longrightarrow>
            version st' = version st + 1 \<and>
            w' = fold (invoke st') (notified st (get st')) w"
    using w' nz inc g ver by simp
  moreover have "notified st (get st') = [] \<longrightarrow> version st' = version st \<and> w' = w"
    using w' g ver by simp
  ultimately show ?thesis by blast
qed

theorem set_commits_and_notifies_witness:
  "set_store (Partial count_update) two_fields_store [] =
     (Inr (), fst (snd (set_store (Partial count_update) two_fields_store [])), [(''count'', 2)]) \<and>
   wf_store two_fields_store \<and> version two_fields_store < 2 ^ 53 \<and>
   version two_fields_store = 1 \<and>
   map fst (notified two_fields_store
      (get (fst (snd (set_store (Partial count_update) two_fields_store []))))) = [0] \<and>
   version (fst (snd (set_store (Partial count_update) two_fields_store []))) = 2"
  using set_commits_and_notifies [of "Partial count_update" two_fields_store "[]"
      "fst (snd (set_store (Partial count_update) two_fields_store []))" "[(''count'', 2)]"]
  by (simp add: store_eval wf_store_def)

text \<open>
  Claim C3. During one update the callbacks that run are exactly those of the entries
  in \<open>notified\<close>, one call each: a sublist of the registered entries in which no
  entry occurs twice. An entry is in it only if its equality function returned false
  on \<open>selector(newState)\<close> and \<open>selector(oldState)\<close>, and never when it returned
  true, although the state object was replaced. The entry that \<open>subscribe\<close>
  registers holds the callback and the selector it was given, and as equality function
  \<open>Object.is\<close> when none was given and the given function otherwise.
\<close>

theorem notified_once_only_if_unequal:
  "(set_store nextState st w = (r, st', w') \<and> distinct (map fst (listeners st)) \<longrightarrow>
      w' = fold (invoke st')
             (if r = Inr () \<and> version st \<noteq> 0 then notified st (get st') else []) w \<and>
      subseq (notified st (get st')) (listeners st) \<and>
      distinct (map fst (notified st (get st'))) \<and>
      (\<forall>(i, en) \<in> set (listeners st).
          ((i, en) \<in> set (notified st (get st')) \<longrightarrow>
             (\<exists>x y. selector en (get st') = Inr x \<and> selector en (get st) = Inr y \<and>
                    equalityFn en x y = Inr False)) \<and>
          ((\<exists>x y. selector en (get st') = Inr x \<and> selector en (get st) = Inr y \<and>
                  equalityFn en x y = Inr True) \<longrightarrow>
             (i, en) \<notin> set (notified st (get st'))))) \<and>
   (subscribe cb sel None st = (k, st1) \<longrightarrow>
      (\<exists>en. listeners st1 = listeners st @ [(k, en)] \<and> callback en = cb \<and> selector en = sel \<and>
            equalityFn en = (\<lambda>a b. Inr (object_is a b)))) \<and>
   (subscribe cb sel (Some f) st = (k, st2) \<longrightarrow>
      (\<exists>en. listeners st2 = listeners st @ [(k, en)] \<and> callback en = cb \<and> selector en = sel \<and>
            equalityFn en = f))"
proof (intro conjI impI)
  assume a: "set_store nextState st w = (r, st', w') \<and> distinct (map fst (listeners st))"
  then show "w' = fold (invoke st')
             (if r = Inr () \<and> version st \<noteq> 0 then notified st (get st') else []) w"
    using set_store_world [of nextState st w r st' w'] by simp
  show "subseq (notified st (get st')) (listeners st)" by (rule notified_subseq)
  from a show "distinct (map fst (notified st (get st')))" by (simp add: notified_distinct)
  show "\<forall>(i, en) \<in> set (listeners st).
          ((i, en) \<in> set (notified st (get st')) \<longrightarrow>
             (\<exists>x y. selector en (get st') = Inr x \<and> selector en (get st) = Inr y \<and>
                    equalityFn en x y = Inr False)) \<and>
          ((\<exists>x y. selector en (get st') = Inr x \<and> selector en (get st) = Inr y \<and>
                  equalityFn en x y = Inr True) \<longrightarrow>
             (i, en) \<notin> set (notified st (get st')))"
    by (auto simp: notified_def differs_True_iff get_def)
next
  assume "subscribe cb sel None st = (k, st1)"
  then have "listeners st1 = listeners st @ [(k, make_entry cb sel None)]"
    by (auto simp: subscribe_def)
  then show "\<exists>en. listeners st1 = listeners st @ [(k, en)] \<and> callback en = cb \<and> selector en = sel \<and>
            equalityFn en = (\<lambda>a b. Inr (object_is a b))"
    by (simp add: make_entry_def)
next
  assume "subscribe cb sel (Some f) st = (k, st2)"
  then have "listeners st2 = listeners st @ [(k, make_entry cb sel (Some f))]"
    by (auto simp: subscribe_def)
  then show "\<exists>en. listeners st2 = listeners st @ [(k, en)] \<and> callback en = cb \<and> selector en = sel \<and>
            equalityFn en = f"
    by (simp add: make_entry_def)
qed

text \<open>
  The witness: with a subscriber to each field, \<open>set({count: 1})\<close> calls the
  subscriber to \<open>count\<close> once and the other one not at all. With a subscriber to the
  whole state under \<open>(a, b) => a.count === b.count\<close>, \<open>set({name: "y"})\<close> calls
  nobody although the state object is replaced, and \<open>set({count: 1})\<close> calls it once.
\<close>

theorem notified_once_only_if_unequal_witness:
  "set_store (Partial count_update) two_fields_store [] =
     (Inr (), fst (snd (set_store (Partial count_update) two_fields_store [])), [(''count'', 2)]) \<and>
   distinct (map fst (listeners two_fields_store)) \<and>
   map fst (listeners two_fields_store) = [0, 1] \<and>
   map fst (notified two_fields_store
      (get (fst (snd (set_store (Partial count_update) two_fields_store []))))) = [0] \<and>
   subscribe (record_call ''count'') select_count None (createStore count_name_state) =
     (0, snd (subscribe (record_call ''count'') select_count None (createStore count_name_state))) \<and>
   custom_subscribed = (0, snd custom_subscribed) \<and>
   map fst (listeners (snd custom_subscribed)) = [0] \<and>
   set_store (Partial name_update) (snd custom_subscribed) [] =
     (Inr (), fst (snd (set_store (Partial name_update) (snd custom_subscribed) [])), []) \<and>
   \<not> object_is (get (fst (snd (set_store (Partial name_update) (snd custom_subscribed) []))))
        (get (snd custom_subscribed)) \<and>
   snd (snd (set_store (Partial count_update) (snd custom_subscribed) [])) = [(''whole'', 2)]"
  using notified_once_only_if_unequal [where nextState = "Partial count_update"
      and st = two_fields_store and w = "[]" and r = "Inr ()"
      and st' = "fst (snd (set_store (Partial count_update) two_fields_store []))"
      and w' = "[(''count'', 2)]" and cb = "record_call ''count''" and sel = select_count
      and k = 0
      and ?st1.0 = "snd (subscribe (record_call ''count'') select_count None (createStore count_name_state))"]
    notified_once_only_if_unequal [where nextState = "Partial name_update"
      and st = "snd custom_subscribed" and w = "[]" and r = "Inr ()"
      and st' = "fst (snd (set_store (Partial name_update) (snd custom_subscribed) []))"
      and w' = "[]"]
    notified_once_only_if_unequal [where st = "createStore count_name_state"
      and cb = "record_call ''whole''" and sel = select_whole and f = same_count
      and k = 0 and ?st2.0 = "snd custom_subscribed"]
  by (simp add: store_eval scenario_eval)


text \<open>
  Equality of the fields has to be identity for this: \<open>0 === -0\<close>, so
  \<open>set({y: -0})\<close> on \<open>{y: 0}\<close> leaves every field equal under \<open>===\<close>, and the
  subscriber to \<open>y\<close> is called, since \<open>Object.is(-0, 0)\<close> is false.
\<close>

lemma negative_zero_update_notifies:
  "strict_equals (get_property (newState zero_store negative_zero_update) ''y'')
     (get_property (get zero_store) ''y'') \<and>
   snd (snd (set_store (Partial negative_zero_update) zero_store [])) = [(''y'', 2)]"
  by (simp add: store_eval)



text \<open>
  Claim C8. When \<open>set\<close> throws, what it leaves is the state it found: \<open>get()\<close>,
  the counter, the registry and the environment are unchanged. And the exception is
  the very one thrown: when the update resolves, the entries before some entry are
  tested without a throw, and that entry's selector (on the new or on the old state) or
  equality function throws \<open>e\<close>, then \<open>set\<close> throws \<open>e\<close>. Every selector and
  equality function is called before the commit.
\<close>

theorem throw_leaves_state:
  "(set_store nextState st w = (Inl e, st', w') \<longrightarrow>
      get st' = get st \<and> version st' = version st \<and> listeners st' = listeners st \<and> w' = w) \<and>
   (resolve_update nextState (get st) = Inr u \<and>
    listeners st = pre @ (i, en) # post \<and>
    list_all (\<lambda>(j, x). \<exists>d. differs x (newState st u) (get st) = Inr d) pre \<and>
    (selector en (newState st u) = Inl e \<or>
     (\<exists>x. selector en (newState st u) = Inr x \<and>
          (selector en (get st) = Inl e \<or>
           (\<exists>y. selector en (get st) = Inr y \<and> equalityFn en x y = Inl e)))) \<longrightarrow>
      fst (set_store nextState st w) = Inl e)"
proof (rule conjI; rule impI)
  assume "set_store nextState st w = (Inl e, st', w')"
  from set_store_Inl [OF this]
  show "get st' = get st \<and> version st' = version st \<and> listeners st' = listeners st \<and> w' = w"
    by (auto simp: get_def)
next
  assume a: "resolve_update nextState (get st) = Inr u \<and>
    listeners st = pre @ (i, en) # post \<and>
    list_all (\<lambda>(j, x). \<exists>d. differs x (newState st u) (get st) = Inr d) pre \<and>
    (selector en (newState st u) = Inl e \<or>
     (\<exists>x. selector en (newState st u) = Inr x \<and>
          (selector en (get st) = Inl e \<or>
           (\<exists>y. selector en (get st) = Inr y \<and> equalityFn en x y = Inl e))))"
  then have d: "differs en (newState st u) (value_st st) = Inl e"
    by (simp add: differs_Inl_iff get_def)
  from a have "\<exists>pre i en post. listeners st = pre @ (i, en) # post \<and>
      differs en (newState st u) (value_st st) = Inl e \<and>
      list_all (\<lambda>(j, x). \<exists>d. differs x (newState st u) (value_st st) = Inr d) pre"
    using d by (auto simp: get_def)
  then have "forEach_listeners (listeners st) (newState st u) (value_st st) [] = Inl e"
    by (simp only: forEach_Inl_iff)
  with a show "fst (set_store nextState st w) = Inl e"
    by (simp add: set_store_def Let_def get_def)
qed

theorem throw_leaves_state_witness:
  "set_store (Partial count_update) throwing_store [] =
     (Inl ''boom'', throwing_store\<lparr>allocated := 3\<rparr>, []) \<and>
   get (throwing_store\<lparr>allocated := 3\<rparr>) = count_name_state \<and>
   get throwing_store = count_name_state \<and>
   resolve_update (Partial count_update) (get throwing_store) = (Inr count_update :: string + val) \<and>
   listeners throwing_store =
     [(0, make_entry (record_call ''count'') select_count None)] @
     (1, make_entry (record_call ''never'') select_throws None) # [] \<and>
   select_throws (newState throwing_store count_update) = Inl ''boom''"
  using throw_leaves_state [where nextState = "Partial count_update" and st = throwing_store
      and w = "[]" and e = "''boom''" and st' = "throwing_store\<lparr>allocated := 3\<rparr>"
      and w' = "[]" and u = count_update
      and pre = "[(0, make_entry (record_call ''count'') select_count None)]" and i = 1
      and en = "make_entry (record_call ''never'') select_throws None" and post = "[]"]
  by (simp add: store_eval)

section \<open>The store: subscriptions\<close>

text \<open>
  Claim C9. Let \<open>subscribe\<close> return the thunk for entry \<open>i\<close>, and let any
  operations follow. Calling the thunk removes entry \<open>i\<close> and nothing else (when the
  thunk was not called before, the entry was still registered and the call reports
  it). After any further operations entry \<open>i\<close> is not registered, no update runs its
  callback (the callbacks an update runs are those of registered entries other than
  \<open>i\<close>), and calling the thunk again changes nothing.
\<close>

theorem unsubscribe_is_final:
  assumes "wf_store st"
    and "subscribe cb sel eq st = (i, st1)"
    and "run ops (st1, w1) = (st2, w2)"
    and "unsubscribe i st2 = (b, st3)"
    and "run ops' (st3, w3) = (st4, w4)"
  shows "listeners st3 = filter (\<lambda>(j, en). j \<noteq> i) (listeners st2) \<and>
         (Unsubscribe i \<notin> set ops \<longrightarrow> b \<and> (i, make_entry cb sel eq) \<in> set (listeners st2)) \<and>
         i \<notin> fst ` set (listeners st4) \<and>
         unsubscribe i st4 = (False, st4) \<and>
         (set_store nextState st4 w = (r, st5, w5) \<longrightarrow>
            i \<notin> fst ` set (notified st4 (get st5)) \<and>
            w5 = fold (invoke st5)
                   (if r = Inr () \<and> version st4 \<noteq> 0 then notified st4 (get st5) else []) w)"
proof -
  have wf1: "wf_store st1" using subscribe_wf [OF assms(1,2)] .
  have wf2: "wf_store st2" using run_wf [of "(st1, w1)" ops] wf1 assms(3) by simp
  have wf3: "wf_store st3" using unsubscribe_wf [OF wf2 assms(4)] .
  have wf4: "wf_store st4" using run_wf [of "(st3, w3)" ops'] wf3 assms(5) by simp
  from wf2 have d2: "distinct (map fst (listeners st2))" by (simp add: wf_store_def)
  have l3: "listeners st3 = filter (\<lambda>(j, en). j \<noteq> i) (listeners st2)"
    using assms(4) delete_entry_filter [OF d2, of i] by (auto simp: unsubscribe_def)
  have in1: "(i, make_entry cb sel eq) \<in> set (listeners st1)"
    using assms(2) by (auto simp: subscribe_def)
  have present: "Unsubscribe i \<notin> set ops \<longrightarrow> b \<and> (i, make_entry cb sel eq) \<in> set (listeners st2)"
  proof
    assume "Unsubscribe i \<notin> set ops"
    with run_registered [of i "make_entry cb sel eq" "(st1, w1)" ops] in1 wf1 assms(3)
    have in2: "(i, make_entry cb sel eq) \<in> set (listeners st2)" by simp
    then have "i \<in> fst ` set (listeners st2)" by force
    then have "fst (delete_entry i (listeners st2))" by (simp add: delete_entry_present)
    with assms(4) have b by (auto simp: unsubscribe_def)
    with in2 show "b \<and> (i, make_entry cb sel eq) \<in> set (listeners st2)" by simp
  qed
  have a1: "i < allocated st1" using assms(2) by (auto simp: subscribe_def)
  have alloc2: "i < allocated st2"
    using run_allocated [of i "(st1, w1)" ops] a1 assms(3) by simp
  have ret3: "retired i st3"
    using alloc2 assms(4) l3 by (auto simp: retired_def unsubscribe_def)
  have ret4: "retired i st4"
    using run_retired [of i "(st3, w3)" ops'] ret3 wf3 assms(5) by simp
  then have out4: "i \<notin> fst ` set (listeners st4)" by (simp add: retired_def)
  have noop: "unsubscribe i st4 = (False, st4)"
    using delete_entry_absent [OF out4] by (simp add: unsubscribe_def)
  have upd: "set_store nextState st4 w = (r, st5, w5) \<longrightarrow>
            i \<notin> fst ` set (notified st4 (get st5)) \<and>
            w5 = fold (invoke st5)
                   (if r = Inr () \<and> version st4 \<noteq> 0 then notified st4 (get st5) else []) w"
  proof
    assume e: "set_store nextState st4 w = (r, st5, w5)"
    have "set (notified st4 (get st5)) \<subseteq> set (listeners st4)"
      by (auto simp: notified_def)
    with out4 have "i \<notin> fst ` set (notified st4 (get st5))" by blast
    with set_store_world [OF e]
    show "i \<notin> fst ` set (notified st4 (get st5)) \<and>
          w5 = fold (invoke st5)
                 (if r = Inr () \<and> version st4 \<noteq> 0 then notified st4 (get st5) else []) w"
      by blast
  qed
  from l3 present out4 noop upd show ?thesis by blast
qed

theorem unsubscribe_is_final_witness:
  "wf_store (createStore count_name_state :: (string, (string \<times> nat) list) store) \<and>
   fst counter_subscribed = 0 \<and>
   snd after_first_update = [(''count'', 2)] \<and>
   fst after_unsubscribe \<and>
   listeners (snd after_unsubscribe) = [] \<and>
   get_property (get (fst after_second_update)) ''count'' = VNumber (Fin 2) \<and>
   snd after_second_update = [] \<and>
   unsubscribe 0 (fst after_second_update) = (False, fst after_second_update)"
  using unsubscribe_is_final [where st = "createStore count_name_state"
      and cb = "record_call ''count''" and sel = select_count and eq = None and i = 0
      and ?st1.0 = "snd counter_subscribed" and ops = "[Set (Partial count_update)]"
      and ?w1.0 = "[]" and ?st2.0 = "fst after_first_update" and ?w2.0 = "snd after_first_update"
      and b = "fst after_unsubscribe" and ?st3.0 = "snd after_unsubscribe"
      and ops' = "[Set (Partial count_two_update)]" and ?w3.0 = "[]"
      and ?st4.0 = "fst after_second_update" and ?w4.0 = "snd after_second_update"]
  by (simp add: scenario_eval store_eval wf_store_def)

text \<open>
  Claim C10. Two calls of \<open>subscribe\<close> with the same callback, selector and equality
  function register two entries with different identities, each holding that callback,
  that selector and that equality function (\<open>Object.is\<close> when none is given). An
  update that changes the selected value (the selector returns on the new and on the
  old state, and the equality function returns false on the two results) runs the
  shared callback twice, after the callbacks of the entries registered before. Each
  thunk removes the entry of its own call only; the other entry stays registered and
  such an update still runs its callback, once.
\<close>

theorem same_arguments_two_entries:
  assumes "wf_store st"
    and "subscribe cb sel eq st = (i, st1)"
    and "subscribe cb sel eq st1 = (j, st2)"
    and "en = \<lparr>callback = cb, selector = sel,
                equalityFn = (case eq of None \<Rightarrow> (\<lambda>a b. Inr (object_is a b)) | Some f \<Rightarrow> f)\<rparr>"
  shows "i \<noteq> j \<and>
         listeners st2 = listeners st @ [(i, en), (j, en)] \<and>
         (set_store nextState st2 w = (Inr (), st3, w3) \<and>
          sel (get st3) = Inr x3 \<and> sel (get st2) = Inr y \<and>
          (case eq of None \<Rightarrow> Inr (object_is x3 y) | Some f \<Rightarrow> f x3 y) = Inr False \<longrightarrow>
            w3 = cb (get st3) (version st3) (cb (get st3) (version st3)
                   (fold (invoke st3) (notified st (get st3)) w))) \<and>
         listeners (snd (unsubscribe i st2)) = listeners st @ [(j, en)] \<and>
         listeners (snd (unsubscribe j st2)) = listeners st @ [(i, en)] \<and>
         (set_store nextState (snd (unsubscribe i st2)) w = (Inr (), st4, w4) \<and>
          sel (get st4) = Inr x4 \<and> sel (get st2) = Inr y \<and>
          (case eq of None \<Rightarrow> Inr (object_is x4 y) | Some f \<Rightarrow> f x4 y) = Inr False \<longrightarrow>
            w4 = cb (get st4) (version st4) (fold (invoke st4) (notified st (get st4)) w)) \<and>
         (set_store nextState (snd (unsubscribe j st2)) w = (Inr (), st5, w5) \<and>
          sel (get st5) = Inr x5 \<and> sel (get st2) = Inr y \<and>
          (case eq of None \<Rightarrow> Inr (object_is x5 y) | Some f \<Rightarrow> f x5 y) = Inr False \<longrightarrow>
            w5 = cb (get st5) (version st5) (fold (invoke st5) (notified st (get st5)) w))"
proof -
  have en: "en = make_entry cb sel eq" using assms(4) by (simp add: make_entry_def)
  have d: "differs (make_entry cb sel eq) new old = Inr True"
    if "sel new = Inr x" "sel old = Inr y"
      "(case eq of None \<Rightarrow> Inr (object_is x y) | Some f \<Rightarrow> f x y) = Inr False"
    for new old x
    using that by (cases eq) (simp_all add: differs_def make_entry_def)
  from subscribe_twice_entries [OF assms(1-3), of nextState w st3 w3 st4 w4 st5 w5] d
  show ?thesis unfolding en by blast
qed

text \<open>
  The witness: \<open>s => s.count\<close> subscribed twice without an equality function, and
  \<open>s => s\<close> subscribed twice with \<open>(a, b) => a.count === b.count\<close>; in both
  stores \<open>set({count: 1})\<close> runs the callback twice, and in the second
  \<open>set({name: "y"})\<close> runs it not at all.
\<close>

theorem same_arguments_two_entries_witness:
  "wf_store (createStore count_name_state :: (string, (string \<times> nat) list) store) \<and>
   counter_subscribed = (0, snd counter_subscribed) \<and>
   subscribed_twice = (1, snd subscribed_twice) \<and>
   map fst (listeners (snd subscribed_twice)) = [0, 1] \<and>
   fst (set_store (Partial count_update) (snd subscribed_twice) []) = Inr () \<and>
   snd (snd (set_store (Partial count_update) (snd subscribed_twice) [])) =
     [(''count'', 2), (''count'', 2)] \<and>
   map fst (listeners (snd (unsubscribe 0 (snd subscribed_twice)))) = [1] \<and>
   map fst (listeners (snd (unsubscribe 1 (snd subscribed_twice)))) = [0] \<and>
   custom_subscribed = (0, snd custom_subscribed) \<and>
   custom_subscribed_twice = (1, snd custom_subscribed_twice) \<and>
   fst (set_store (Partial count_update) (snd custom_subscribed_twice) []) = Inr () \<and>
   same_count (get (fst (snd (set_store (Partial count_update) (snd custom_subscribed_twice) []))))
     (get (snd custom_subscribed_twice)) = Inr False \<and>
   snd (snd (set_store (Partial count_update) (snd custom_subscribed_twice) [])) =
     [(''whole'', 2), (''whole'', 2)] \<and>
   snd (snd (set_store (Partial name_update) (snd custom_subscribed_twice) [])) = [] \<and>
   snd (snd (set_store (Partial count_update)
     (snd (unsubscribe 0 (snd custom_subscribed_twice))) [])) = [(''whole'', 2)]"
proof -
  let ?S = "createStore count_name_state :: (string, (string \<times> nat) list) store"
  have wf: "wf_store ?S"
    by (simp add: createStore_def wf_store_def count_name_state_def)
  have a1: "subscribe (record_call ''count'') select_count None ?S = (0, snd counter_subscribed)"
    by (simp add: counter_subscribed_def subscribe_def createStore_def)
  have a2: "subscribe (record_call ''count'') select_count None (snd counter_subscribed) =
      (1, snd subscribed_twice)"
    by (simp add: subscribed_twice_def counter_subscribed_def subscribe_def createStore_def)
  have b1: "subscribe (record_call ''whole'') select_whole (Some same_count) ?S =
      (0, snd custom_subscribed)"
    by (simp add: custom_subscribed_def subscribe_def createStore_def)
  have b2: "subscribe (record_call ''whole'') select_whole (Some same_count) (snd custom_subscribed) =
      (1, snd custom_subscribed_twice)"
    by (simp add: custom_subscribed_twice_def custom_subscribed_def subscribe_def createStore_def)
  have empty: "listeners ?S = []" by (simp add: createStore_def)
  from same_arguments_two_entries [OF wf a1 a2 refl]
  have "listeners (snd subscribed_twice) = listeners ?S @
      [(0, \<lparr>callback = record_call ''count'', selector = select_count,
            equalityFn = (\<lambda>a b. Inr (object_is a b))\<rparr>),
       (1, \<lparr>callback = record_call ''count'', selector = select_count,
            equalityFn = (\<lambda>a b. Inr (object_is a b))\<rparr>)]"
    by simp
  then have l1: "map fst (listeners (snd subscribed_twice)) = [0, 1]"
    by (simp add: empty)
  have c1: "counter_subscribed = (0, snd counter_subscribed)"
    using a1 by (simp add: counter_subscribed_def)
  have c2: "subscribed_twice = (1, snd subscribed_twice)"
    using a2 by (simp add: subscribed_twice_def)
  have c3: "custom_subscribed = (0, snd custom_subscribed)"
    using b1 by (simp add: custom_subscribed_def)
  have c4: "custom_subscribed_twice = (1, snd custom_subscribed_twice)"
    using b2 by (simp add: custom_subscribed_twice_def)
  have e1: "fst (set_store (Partial count_update) (snd subscribed_twice) []) = Inr ()"
    by (simp add: scenario_eval store_eval)
  have e2: "snd (snd (set_store (Partial count_update) (snd subscribed_twice) [])) =
     [(''count'', 2), (''count'', 2)]"
    by (simp add: scenario_eval store_eval)
  have e3: "map fst (listeners (snd (unsubscribe 0 (snd subscribed_twice)))) = [1]"
    by (simp add: scenario_eval store_eval)
  have e4: "map fst (listeners (snd (unsubscribe 1 (snd subscribed_twice)))) = [0]"
    by (simp add: scenario_eval store_eval)
  define st3 where
    "st3 = fst (snd (set_store (Partial count_update) (snd custom_subscribed_twice) []))"
  define w3 where
    "w3 = snd (snd (set_store (Partial count_update) (snd custom_subscribed_twice) []))"
  have f0: "fst (set_store (Partial count_update) (snd custom_subscribed_twice) []) = Inr ()"
    by (simp add: scenario_eval store_eval)
  then have f1: "set_store (Partial count_update) (snd custom_subscribed_twice) [] =
      (Inr (), st3, w3)"
    by (simp add: st3_def w3_def prod_eq_iff)
  have sc: "same_count (get st3) (get (snd custom_subscribed_twice)) = Inr False"
    by (simp add: st3_def scenario_eval store_eval)
  have ver: "version st3 = 2"
    by (simp add: st3_def scenario_eval store_eval)
  have sw: "select_whole (get st3) = Inr (get st3)"
    "select_whole (get (snd custom_subscribed_twice)) = Inr (get (snd custom_subscribed_twice))"
    by (simp_all add: select_whole_def)
  note t2 = same_arguments_two_entries [where nextState = "Partial count_update" and w = "[]"
      and ?st3.0 = st3 and ?w3.0 = w3 and ?x3.0 = "get st3"
      and y = "get (snd custom_subscribed_twice)", OF wf b1 b2 refl]
  from t2 f1 sc sw
  have "w3 = record_call ''whole'' (get st3) (version st3)
               (record_call ''whole'' (get st3) (version st3)
                  (fold (invoke st3) (notified ?S (get st3)) []))"
    by simp
  then have "w3 = [(''whole'', 2), (''whole'', 2)]"
    by (simp add: ver notified_def empty record_call_def)
  then have e5: "snd (snd (set_store (Partial count_update) (snd custom_subscribed_twice) [])) =
     [(''whole'', 2), (''whole'', 2)]"
    by (simp add: w3_def)
  have e6: "same_count
      (get (fst (snd (set_store (Partial count_update) (snd custom_subscribed_twice) []))))
      (get (snd custom_subscribed_twice)) = Inr False"
    using sc by (simp add: st3_def)
  have e7: "snd (snd (set_store (Partial name_update) (snd custom_subscribed_twice) [])) = []"
    by (simp add: scenario_eval store_eval)
  have e8: "snd (snd (set_store (Partial count_update)
     (snd (unsubscribe 0 (snd custom_subscribed_twice))) [])) = [(''whole'', 2)]"
    by (simp add: scenario_eval store_eval)
  show ?thesis
    by (intro conjI) (fact wf c1 c2 l1 e1 e2 e3 e4 c3 c4 f0 e6 e5 e7 e8)+
qed

section \<open>The adapter: reads\<close>




text \<open>
  The counterexample to claim C6 as stated: with the counter equal to
  \<open>lastVersion\<close>, the read applies the selector to the current state all the same,
  so a selector that throws there makes the read throw, while another selector gets
  the cached snapshot.
\<close>

theorem read_ignores_selector_counterexample:
  "lastVersion seeded_cache = version (createStore count_name_state :: (string, unit) store) \<and>
   getSnapshot (createStore count_name_state :: (string, unit) store) (Some select_throws)
     seeded_cache = (Inl ''boom'', seeded_cache) \<and>
   getSnapshot (createStore count_name_state :: (string, unit) store) (Some select_count)
     seeded_cache = (Inr (lastSnapshot seeded_cache), seeded_cache)"
  by (simp add: seeded_cache_def applySelector_def getSnapshot_def store_eval)

text \<open>
  Claim C6, amended. On a read where the store's version counter equals
  \<open>lastVersion\<close>, the adapter first applies the selector to the current state: an
  exception it throws propagates and the cache is unchanged; when it returns, its
  result is discarded and the cached snapshot is returned, the cache unchanged.
\<close>

theorem read_applies_selector_first:
  "lastVersion c = version st \<longrightarrow>
     getSnapshot st sel c =
       (case applySelector st sel of
          Inl e \<Rightarrow> (Inl e, c)
        | Inr nextSnapshot \<Rightarrow> (Inr (lastSnapshot c), c))"
  by (simp add: getSnapshot_def Let_def split: sum.splits)

theorem read_applies_selector_first_witness:
  "lastVersion refreshed_cache = version updated_store \<and>
   applySelector updated_store (Some select_throws) = Inl ''boom'' \<and>
   getSnapshot updated_store (Some select_throws) refreshed_cache =
     (Inl ''boom'', refreshed_cache) \<and>
   getSnapshot updated_store None refreshed_cache =
     (Inr (VNumber (Fin 1)), refreshed_cache)"
  using read_applies_selector_first [of refreshed_cache updated_store "Some select_throws"]
    read_applies_selector_first [of refreshed_cache updated_store None]
  by (simp add: updated_store_def refreshed_cache_def applySelector_def store_eval)

section \<open>The comparator: values of different kinds\<close>

text \<open>
  Claim C7 says that two non-identical composite values of different kinds are never
  shallow-equal. The comparator has a guard for an array against a non-array, and none
  for the other kinds: a \<open>Map\<close>, \<open>Set\<close>, \<open>Date\<close> or \<open>RegExp\<close> met with a value
  of another kind falls through to the comparison of own enumerable keys, which both
  values lack. So \<open>new Map([[1, 2]])\<close> is shallow-equal to \<open>{}\<close> and to
  \<open>new Date(0)\<close>.
\<close>

theorem shallow_mixes_kinds:
  "shallow one_entry_map empty_update = True \<and> shallow one_entry_map epoch_date = True"
  by (simp add: shallow_def one_entry_map_def empty_update_def epoch_date_def object_is_def
      object_keys_def)

theorem shallow_mixes_kinds_witness:
  "shallow one_entry_map empty_update \<and> \<not> object_is one_entry_map empty_update \<and>
   instanceof_Map one_entry_map \<and> \<not> instanceof_Map empty_update \<and>
   shallow one_entry_map epoch_date \<and> instanceof_Date epoch_date"
  using shallow_mixes_kinds
  by (simp add: one_entry_map_def empty_update_def epoch_date_def object_is_def)

end
